theory Spec2Isabelle
  imports Complex_Main "HOL-Library.Multiset"
begin

section \<open>Analysis configuration (ConfigForSize, RecommendSampleSize)\<close>

text \<open>
  Go's \<open>int\<close> is modelled as \<open>int\<close>. The only place where a 64-bit overflow can
  occur is the product \<open>nodeCount*(nodeCount-1)\<close> of \<open>ConfigForSize\<close>; the wrap-around
  is written out there (\<open>wrap64\<close>). \<open>float64\<close> values are modelled as \<open>real\<close>.
  \<open>time.Duration\<close> is an integer number of nanoseconds.
\<close>

datatype BetweennessMode = BetweennessUnset | BetweennessExact | BetweennessApproximate | BetweennessSkip

definition Millisecond :: int where
  "Millisecond = 1000000"

definition Second :: int where
  "Second = 1000000000"

record AnalysisConfig =
  ComputeBetweenness :: bool
  BetweennessTimeout :: int
  BetweennessSkipReason :: string
  BetweennessMode :: BetweennessMode
  BetweennessSampleSize :: int
  BetweennessIsApproximate :: bool
  ComputePageRank :: bool
  PageRankTimeout :: int
  PageRankSkipReason :: string
  ComputeHITS :: bool
  HITSTimeout :: int
  HITSSkipReason :: string
  ComputeCycles :: bool
  CyclesTimeout :: int
  MaxCyclesToStore :: int
  CyclesSkipReason :: string
  ComputeEigenvector :: bool
  ComputeCriticalPath :: bool

text \<open>The zero value of the struct: every field that a composite literal leaves out.\<close>

definition zeroConfig :: AnalysisConfig where
  "zeroConfig = \<lparr> ComputeBetweenness = False, BetweennessTimeout = 0,
     BetweennessSkipReason = [], BetweennessMode = BetweennessUnset,
     BetweennessSampleSize = 0, BetweennessIsApproximate = False,
     ComputePageRank = False, PageRankTimeout = 0, PageRankSkipReason = [],
     ComputeHITS = False, HITSTimeout = 0, HITSSkipReason = [],
     ComputeCycles = False, CyclesTimeout = 0, MaxCyclesToStore = 0, CyclesSkipReason = [],
     ComputeEigenvector = False, ComputeCriticalPath = False \<rparr>"

definition RecommendSampleSize :: "int \<Rightarrow> int \<Rightarrow> int" where
  "RecommendSampleSize nodeCount edgeCount =
     (if nodeCount < 100 then nodeCount
      else if nodeCount < 500 then
        (let minSample = 50; sample = nodeCount div 5
         in if sample > minSample then sample else minSample)
      else if nodeCount < 2000 then 100
      else 200)"

definition wrap64 :: "int \<Rightarrow> int" where
  "wrap64 x = (x + 2 ^ 63) mod 2 ^ 64 - 2 ^ 63"

text \<open>
  The comparison \<open>density < c\<close> of \<open>ConfigForSize\<close>. \<open>density\<close> is \<open>0.0\<close> unless
  \<open>nodeCount > 1\<close>, and otherwise the quotient of the two counts converted to \<open>float64\<close>.
  A product that wraps to zero makes the quotient an IEEE infinity or NaN: the comparison
  then holds only for \<open>-Inf\<close>, that is for a negative edge count. The quotient itself is
  taken exactly; for node counts below 2000 the nearest \<open>float64\<close> of the quotient lies
  on the same side of the constant \<open>0.01\<close> as the exact quotient does of \<open>1/100\<close>.
\<close>

definition densityBelow :: "int \<Rightarrow> int \<Rightarrow> real \<Rightarrow> bool" where
  "densityBelow nodeCount edgeCount c =
     (if nodeCount > 1 then
        (let d = wrap64 (nodeCount * (nodeCount - 1))
         in if d = 0 then edgeCount < 0
            else real_of_int edgeCount / real_of_int d < c)
      else 0 < c)"

definition ConfigForSize :: "int \<Rightarrow> int \<Rightarrow> AnalysisConfig" where
  "ConfigForSize nodeCount edgeCount =
     (if nodeCount < 100 then
        zeroConfig \<lparr> ComputeBetweenness := True, BetweennessMode := BetweennessExact,
          BetweennessTimeout := 2 * Second,
          ComputePageRank := True, PageRankTimeout := 2 * Second,
          ComputeHITS := True, HITSTimeout := 2 * Second,
          ComputeCycles := True, CyclesTimeout := 2 * Second, MaxCyclesToStore := 1000,
          ComputeEigenvector := True, ComputeCriticalPath := True \<rparr>
      else if nodeCount < 500 then
        zeroConfig \<lparr> ComputeBetweenness := True, BetweennessMode := BetweennessExact,
          BetweennessTimeout := 500 * Millisecond,
          ComputePageRank := True, PageRankTimeout := 500 * Millisecond,
          ComputeHITS := True, HITSTimeout := 500 * Millisecond,
          ComputeCycles := True, CyclesTimeout := 500 * Millisecond, MaxCyclesToStore := 100,
          ComputeEigenvector := True, ComputeCriticalPath := True \<rparr>
      else if nodeCount < 2000 then
        (let cfg = zeroConfig \<lparr> ComputePageRank := True, PageRankTimeout := 300 * Millisecond,
               ComputeHITS := True, HITSTimeout := 300 * Millisecond,
               ComputeCycles := True, CyclesTimeout := 300 * Millisecond, MaxCyclesToStore := 50,
               ComputeEigenvector := True, ComputeCriticalPath := True \<rparr>
         in if densityBelow nodeCount edgeCount (1 / 100) then
              cfg \<lparr> ComputeBetweenness := True, BetweennessMode := BetweennessApproximate,
                BetweennessSampleSize := RecommendSampleSize nodeCount edgeCount,
                BetweennessTimeout := 500 * Millisecond \<rparr>
            else
              cfg \<lparr> ComputeBetweenness := False, BetweennessMode := BetweennessSkip,
                BetweennessSkipReason := ''graph too dense (density > 0.01)'' \<rparr>)
      else
        (let cfg = zeroConfig \<lparr> ComputeBetweenness := True,
               BetweennessMode := BetweennessApproximate,
               BetweennessSampleSize := RecommendSampleSize nodeCount edgeCount,
               BetweennessTimeout := 500 * Millisecond,
               ComputePageRank := True, PageRankTimeout := 200 * Millisecond,
               ComputeCycles := False, CyclesSkipReason := ''graph too large (>2000 nodes)'',
               MaxCyclesToStore := 10,
               ComputeEigenvector := True, ComputeCriticalPath := True \<rparr>
         in if densityBelow nodeCount edgeCount (1 / 1000) then
              cfg \<lparr> ComputeHITS := True, HITSTimeout := 200 * Millisecond \<rparr>
            else
              cfg \<lparr> ComputeHITS := False, HITSSkipReason := ''graph too large and dense'' \<rparr>))"

section \<open>Properties of the configuration selector\<close>

lemma wrap64_small: "0 \<le> x \<Longrightarrow> x < 2 ^ 63 \<Longrightarrow> wrap64 x = x"
  by (simp add: wrap64_def)

lemma large_tier_product:
  assumes "500 \<le> n" "n < 2000"
  shows "wrap64 (n * (n - 1)) = n * (n - 1)" and "0 < n * (n - 1)"
proof -
  have pos: "0 < n * (n - 1)" using assms by simp
  have "n * (n - 1) \<le> 2000 * 2000"
    using assms by (intro mult_mono) auto
  then have "n * (n - 1) < 2 ^ 63" by simp
  with pos show "wrap64 (n * (n - 1)) = n * (n - 1)"
    by (simp add: wrap64_small)
  show "0 < n * (n - 1)" by (rule pos)
qed

lemma densityBelow_large_tier:
  assumes "500 \<le> n" "n < 2000"
  shows "densityBelow n e c \<longleftrightarrow> real_of_int e / real_of_int (n * (n - 1)) < c"
  using assms large_tier_product [OF assms]
  by (simp add: densityBelow_def Let_def)

lemma ConfigForSize_large_mode:
  assumes "500 \<le> n" "n < 2000"
  shows "BetweennessMode (ConfigForSize n e) =
           (if real_of_int e / real_of_int (n * (n - 1)) < 1 / 100
            then BetweennessApproximate else BetweennessSkip)"
  using assms densityBelow_large_tier [OF assms, of e "1 / 100"]
  by (simp add: ConfigForSize_def Let_def)

lemma ConfigForSize_large_reason:
  assumes "500 \<le> n" "n < 2000"
    and "\<not> real_of_int e / real_of_int (n * (n - 1)) < 1 / 100"
  shows "BetweennessSkipReason (ConfigForSize n e) \<noteq> []"
  using assms densityBelow_large_tier [OF assms(1,2), of e "1 / 100"]
  by (simp add: ConfigForSize_def Let_def)

lemma ConfigForSize_large_sample:
  assumes "500 \<le> n" "n < 2000"
    and "real_of_int e / real_of_int (n * (n - 1)) < 1 / 100"
  shows "BetweennessSampleSize (ConfigForSize n e) = 100"
  using assms densityBelow_large_tier [OF assms(1,2), of e "1 / 100"]
  by (simp add: ConfigForSize_def Let_def RecommendSampleSize_def)

lemma ConfigForSize_xl:
  assumes "2000 \<le> n"
  shows "BetweennessMode (ConfigForSize n e) = BetweennessApproximate"
    and "BetweennessSampleSize (ConfigForSize n e) = 200"
  using assms by (simp_all add: ConfigForSize_def Let_def RecommendSampleSize_def)

lemma ConfigForSize_small_mode:
  assumes "n < 500"
  shows "BetweennessMode (ConfigForSize n e) = BetweennessExact"
  using assms by (simp add: ConfigForSize_def)

text \<open>
  C3 (as stated): \<open>RecommendSampleSize\<close> returns the fixed floor 50 for node counts below
  100. The code returns the node count itself there: at 10 nodes the result is 10.
\<close>

theorem RecommendSampleSize_small_not_floor: "RecommendSampleSize 10 0 \<noteq> 50"
  by (simp add: RecommendSampleSize_def)

text \<open>
  C3 (amended): \<open>RecommendSampleSize\<close> is a step function of the node count that ignores
  the edge count: the node count itself below 100, \<open>max (nodeCount / 5) 50\<close> from 100 up
  to 499, 100 from 500 up to 1999, and 200 from 2000 on.
\<close>

theorem RecommendSampleSize_steps:
  "(nodeCount < 100 \<longrightarrow> RecommendSampleSize nodeCount edgeCount = nodeCount) \<and>
   (100 \<le> nodeCount \<and> nodeCount < 500 \<longrightarrow>
      RecommendSampleSize nodeCount edgeCount = max (nodeCount div 5) 50) \<and>
   (500 \<le> nodeCount \<and> nodeCount < 2000 \<longrightarrow> RecommendSampleSize nodeCount edgeCount = 100) \<and>
   (2000 \<le> nodeCount \<longrightarrow> RecommendSampleSize nodeCount edgeCount = 200)"
  by (simp add: RecommendSampleSize_def Let_def max_def)

theorem RecommendSampleSize_steps_witness:
  "RecommendSampleSize 60 7 = 60 \<and> RecommendSampleSize 400 7 = 80 \<and>
   RecommendSampleSize 120 7 = 50 \<and> RecommendSampleSize 1500 7 = 100 \<and>
   RecommendSampleSize 2000 7 = 200"
  using RecommendSampleSize_steps [of 60 7] RecommendSampleSize_steps [of 400 7]
    RecommendSampleSize_steps [of 120 7] RecommendSampleSize_steps [of 1500 7]
    RecommendSampleSize_steps [of 2000 7]
  by simp

text \<open>
  C4: \<open>ConfigForSize 50 100\<close> selects exact betweenness; \<open>ConfigForSize 1500 1000\<close>
  selects approximate betweenness with sample size 100; \<open>ConfigForSize 1500 50000\<close> skips
  betweenness with a non-empty reason; and for every node count from 500 up to 1999 the
  mode is approximate exactly when the density is below 0.01, and is skip with a non-empty
  reason otherwise.
\<close>

theorem ConfigForSize_tiers:
  "BetweennessMode (ConfigForSize 50 100) = BetweennessExact \<and>
   BetweennessMode (ConfigForSize 1500 1000) = BetweennessApproximate \<and>
   BetweennessSampleSize (ConfigForSize 1500 1000) = 100 \<and>
   BetweennessMode (ConfigForSize 1500 50000) = BetweennessSkip \<and>
   BetweennessSkipReason (ConfigForSize 1500 50000) \<noteq> [] \<and>
   (500 \<le> nodeCount \<and> nodeCount < 2000 \<longrightarrow>
      (BetweennessMode (ConfigForSize nodeCount edgeCount) = BetweennessApproximate
         \<longleftrightarrow> real_of_int edgeCount / real_of_int (nodeCount * (nodeCount - 1)) < 1 / 100) \<and>
      (\<not> real_of_int edgeCount / real_of_int (nodeCount * (nodeCount - 1)) < 1 / 100 \<longrightarrow>
         BetweennessMode (ConfigForSize nodeCount edgeCount) = BetweennessSkip \<and>
         BetweennessSkipReason (ConfigForSize nodeCount edgeCount) \<noteq> []))"
proof -
  have a: "BetweennessMode (ConfigForSize 50 100) = BetweennessExact"
    by (rule ConfigForSize_small_mode) simp
  have b: "BetweennessMode (ConfigForSize 1500 1000) = BetweennessApproximate"
    by (simp add: ConfigForSize_large_mode)
  have c: "BetweennessSampleSize (ConfigForSize 1500 1000) = 100"
    by (rule ConfigForSize_large_sample) simp_all
  have d: "BetweennessMode (ConfigForSize 1500 50000) = BetweennessSkip"
    by (simp add: ConfigForSize_large_mode)
  have e: "BetweennessSkipReason (ConfigForSize 1500 50000) \<noteq> []"
    by (rule ConfigForSize_large_reason) simp_all
  have f: "500 \<le> nodeCount \<and> nodeCount < 2000 \<longrightarrow>
      (BetweennessMode (ConfigForSize nodeCount edgeCount) = BetweennessApproximate
         \<longleftrightarrow> real_of_int edgeCount / real_of_int (nodeCount * (nodeCount - 1)) < 1 / 100) \<and>
      (\<not> real_of_int edgeCount / real_of_int (nodeCount * (nodeCount - 1)) < 1 / 100 \<longrightarrow>
         BetweennessMode (ConfigForSize nodeCount edgeCount) = BetweennessSkip \<and>
         BetweennessSkipReason (ConfigForSize nodeCount edgeCount) \<noteq> [])"
    using ConfigForSize_large_mode [of nodeCount edgeCount]
      ConfigForSize_large_reason [of nodeCount edgeCount]
    by auto
  from a b c d e f show ?thesis by blast
qed

theorem ConfigForSize_tiers_witness:
  "(500::int) \<le> 1500 \<and> (1500::int) < 2000 \<and>
   real_of_int 1000 / real_of_int (1500 * (1500 - 1)) < 1 / 100 \<and>
   BetweennessMode (ConfigForSize 1500 1000) = BetweennessApproximate \<and>
   \<not> real_of_int 50000 / real_of_int (1500 * (1500 - 1)) < 1 / 100 \<and>
   BetweennessMode (ConfigForSize 1500 50000) = BetweennessSkip \<and>
   BetweennessSkipReason (ConfigForSize 1500 50000) \<noteq> []"
  using ConfigForSize_tiers [of 1500 1000] ConfigForSize_tiers [of 1500 50000]
  by simp

text \<open>
  C5: for non-negative node and edge counts, whenever \<open>ConfigForSize\<close> selects the
  approximate betweenness mode, the sample size it records is at least 1 and strictly
  below the node count.
\<close>

theorem ConfigForSize_sample_in_range:
  assumes "0 \<le> nodeCount" and "0 \<le> edgeCount"
    and "BetweennessMode (ConfigForSize nodeCount edgeCount) = BetweennessApproximate"
  shows "1 \<le> BetweennessSampleSize (ConfigForSize nodeCount edgeCount) \<and>
         BetweennessSampleSize (ConfigForSize nodeCount edgeCount) < nodeCount"
proof -
  consider "nodeCount < 500" | "500 \<le> nodeCount" "nodeCount < 2000" | "2000 \<le> nodeCount"
    by linarith
  then show ?thesis
  proof cases
    case 1
    then show ?thesis using assms(3) by (simp add: ConfigForSize_small_mode)
  next
    case 2
    with assms(3) have "real_of_int edgeCount / real_of_int (nodeCount * (nodeCount - 1)) < 1 / 100"
      by (simp add: ConfigForSize_large_mode split: if_splits)
    with 2 show ?thesis by (simp add: ConfigForSize_large_sample)
  next
    case 3
    then show ?thesis by (simp add: ConfigForSize_xl)
  qed
qed

theorem ConfigForSize_sample_in_range_witness:
  "(0::int) \<le> 1500 \<and> (0::int) \<le> 1000 \<and>
   BetweennessMode (ConfigForSize 1500 1000) = BetweennessApproximate \<and>
   1 \<le> BetweennessSampleSize (ConfigForSize 1500 1000) \<and>
   BetweennessSampleSize (ConfigForSize 1500 1000) < 1500"
proof -
  have m: "BetweennessMode (ConfigForSize 1500 1000) = BetweennessApproximate"
    by (simp add: ConfigForSize_large_mode)
  show ?thesis
    using m ConfigForSize_sample_in_range [of 1500 1000] by simp
qed

section \<open>Issues and the dependency graph (NewAnalyzer)\<close>

text \<open>
  The package \<open>model\<close> declares \<open>Issue\<close> and \<open>Dependency\<close>; the fields and the
  dependency kinds used here are the ones the analysis code and its tests name.

  The graph is gonum's \<open>simple.DirectedGraph\<close>: a set of node ids and a set of directed
  edges without parallel edges. It is kept here as two duplicate-free lists in insertion
  order; the order in which gonum enumerates nodes and neighbours is unspecified, and the
  insertion order is one admissible outcome. \<open>NewNode\<close> returns an unused id (0 for the
  empty graph, then the successor of the largest id). \<open>SetEdge\<close> panics when both
  endpoints are the same node, adds missing endpoints, and replaces an existing edge.
  Node ids are \<open>int64\<close> in the source and never negative here: they are \<open>nat\<close>.
\<close>

datatype DependencyType = DepBlocks | DepRelated | DepParentChild

record Dependency =
  IssueID :: string
  DependsOnID :: string
  Type :: DependencyType

record Issue =
  ID :: string
  Dependencies :: "Dependency list"

datatype panic = AddingSelfEdge | SliceBoundsOutOfRange

record DirectedGraph =
  nodes :: "nat list"
  edges :: "(nat \<times> nat) list"

definition NewDirectedGraph :: DirectedGraph where
  "NewDirectedGraph = \<lparr> nodes = [], edges = [] \<rparr>"

definition NewNode :: "DirectedGraph \<Rightarrow> nat" where
  "NewNode gr = (if nodes gr = [] then 0 else Suc (Max (set (nodes gr))))"

definition AddNode :: "DirectedGraph \<Rightarrow> nat \<Rightarrow> DirectedGraph" where
  "AddNode gr n = gr \<lparr> nodes := nodes gr @ [n] \<rparr>"

definition SetEdge :: "DirectedGraph \<Rightarrow> nat \<Rightarrow> nat \<Rightarrow> panic + DirectedGraph" where
  "SetEdge gr u v =
     (if u = v then Inl AddingSelfEdge
      else
        (let ns = (if u \<in> set (nodes gr) then nodes gr else nodes gr @ [u]);
             ns' = (if v \<in> set ns then ns else ns @ [v])
         in Inr (gr \<lparr> nodes := ns',
                   edges := (if (u, v) \<in> set (edges gr) then edges gr else edges gr @ [(u, v)]) \<rparr>)))"

definition From :: "DirectedGraph \<Rightarrow> nat \<Rightarrow> nat list" where
  "From gr u = map snd (filter (\<lambda>e. fst e = u) (edges gr))"

definition To :: "DirectedGraph \<Rightarrow> nat \<Rightarrow> nat list" where
  "To gr v = map fst (filter (\<lambda>e. snd e = v) (edges gr))"

record Analyzer =
  graph :: DirectedGraph
  idToNode :: "string \<rightharpoonup> nat"
  nodeToID :: "nat \<rightharpoonup> string"
  issueMap :: "string \<rightharpoonup> Issue"

fun addNodes :: "Issue list \<Rightarrow> Analyzer \<Rightarrow> Analyzer" where
  "addNodes [] a = a"
| "addNodes (issue # rest) a =
     (let n = NewNode (graph a)
      in addNodes rest
           (a \<lparr> graph := AddNode (graph a) n,
                idToNode := (idToNode a)(ID issue \<mapsto> n),
                nodeToID := (nodeToID a)(n \<mapsto> ID issue),
                issueMap := (issueMap a)(ID issue \<mapsto> issue) \<rparr>))"

fun addDeps :: "(string \<rightharpoonup> nat) \<Rightarrow> nat \<Rightarrow> Dependency list \<Rightarrow> DirectedGraph \<Rightarrow> panic + DirectedGraph" where
  "addDeps i2n u [] gr = Inr gr"
| "addDeps i2n u (dep # deps) gr =
     (case i2n (DependsOnID dep) of
        None \<Rightarrow> addDeps i2n u deps gr
      | Some v \<Rightarrow>
          (case SetEdge gr u v of
             Inl e \<Rightarrow> Inl e
           | Inr gr' \<Rightarrow> addDeps i2n u deps gr'))"

fun addEdges :: "(string \<rightharpoonup> nat) \<Rightarrow> Issue list \<Rightarrow> DirectedGraph \<Rightarrow> panic + DirectedGraph" where
  "addEdges i2n [] gr = Inr gr"
| "addEdges i2n (issue # rest) gr =
     (case i2n (ID issue) of
        None \<Rightarrow> addEdges i2n rest gr
      | Some u \<Rightarrow>
          (case addDeps i2n u (Dependencies issue) gr of
             Inl e \<Rightarrow> Inl e
           | Inr gr' \<Rightarrow> addEdges i2n rest gr'))"

definition NewAnalyzer :: "Issue list \<Rightarrow> panic + Analyzer" where
  "NewAnalyzer issues =
     (let a = addNodes issues
                \<lparr> graph = NewDirectedGraph, idToNode = Map.empty, nodeToID = Map.empty,
                  issueMap = Map.empty \<rparr>
      in case addEdges (idToNode a) issues (graph a) of
           Inl e \<Rightarrow> Inl e
         | Inr gr \<Rightarrow> Inr (a \<lparr> graph := gr \<rparr>))"

definition relatedIssues :: "Issue list" where
  "relatedIssues =
     [\<lparr> ID = ''A'', Dependencies = [\<lparr> IssueID = ''A'', DependsOnID = ''B'', Type = DepRelated \<rparr>] \<rparr>,
      \<lparr> ID = ''B'', Dependencies = [] \<rparr>]"

lemma SetEdge_edges:
  "SetEdge gr u v = Inr gr' \<Longrightarrow> set (edges gr') = insert (u, v) (set (edges gr)) \<and> u \<noteq> v"
  by (auto simp: SetEdge_def Let_def split: if_splits)

lemma addDeps_edges:
  "addDeps i2n u deps gr = Inr gr' \<Longrightarrow>
     set (edges gr') = set (edges gr) \<union> {(u, v) | v dep. dep \<in> set deps \<and> i2n (DependsOnID dep) = Some v}"
proof (induction deps arbitrary: gr)
  case Nil
  then show ?case by simp
next
  case (Cons dep deps)
  show ?case
  proof (cases "i2n (DependsOnID dep)")
    case None
    with Cons.prems have "addDeps i2n u deps gr = Inr gr'" by simp
    from Cons.IH [OF this] None show ?thesis by auto
  next
    case (Some v)
    with Cons.prems obtain g1 where s: "SetEdge gr u v = Inr g1" and r: "addDeps i2n u deps g1 = Inr gr'"
      by (auto split: sum.splits)
    from Cons.IH [OF r] SetEdge_edges [OF s] Some show ?thesis by auto
  qed
qed

lemma addEdges_edges:
  "addEdges i2n issues gr = Inr gr' \<Longrightarrow>
     set (edges gr') = set (edges gr) \<union>
       {(u, v) | u v issue dep. issue \<in> set issues \<and> dep \<in> set (Dependencies issue) \<and>
           i2n (ID issue) = Some u \<and> i2n (DependsOnID dep) = Some v}"
proof (induction issues arbitrary: gr)
  case Nil
  then show ?case by simp
next
  case (Cons issue rest)
  show ?case
  proof (cases "i2n (ID issue)")
    case None
    with Cons.prems have "addEdges i2n rest gr = Inr gr'" by simp
    from Cons.IH [OF this] None show ?thesis by auto
  next
    case (Some u)
    with Cons.prems obtain g1 where s: "addDeps i2n u (Dependencies issue) gr = Inr g1"
      and r: "addEdges i2n rest g1 = Inr gr'"
      by (auto split: sum.splits)
    from Cons.IH [OF r] addDeps_edges [OF s] Some show ?thesis by auto
  qed
qed

lemma addNodes_edges: "edges (graph (addNodes issues a)) = edges (graph a)"
  by (induction issues arbitrary: a) (simp_all add: Let_def AddNode_def)

lemma addNodes_dom: "dom (idToNode (addNodes issues a)) = dom (idToNode a) \<union> ID ` set issues"
  by (induction issues arbitrary: a) (auto simp: Let_def)

definition edgesOf :: "panic + Analyzer \<Rightarrow> (nat \<times> nat) list option" where
  "edgesOf r = (case r of Inl e \<Rightarrow> None | Inr a \<Rightarrow> Some (edges (graph a)))"

definition nodeOf :: "panic + Analyzer \<Rightarrow> string \<Rightarrow> nat option" where
  "nodeOf r s = (case r of Inl e \<Rightarrow> None | Inr a \<Rightarrow> idToNode a s)"

definition blockingIssues :: "Issue list" where
  "blockingIssues =
     [\<lparr> ID = ''A'', Dependencies = [\<lparr> IssueID = ''A'', DependsOnID = ''B'', Type = DepBlocks \<rparr>,
                                   \<lparr> IssueID = ''A'', DependsOnID = ''Z'', Type = DepBlocks \<rparr>] \<rparr>,
      \<lparr> ID = ''B'', Dependencies = [\<lparr> IssueID = ''B'', DependsOnID = ''C'', Type = DepParentChild \<rparr>] \<rparr>,
      \<lparr> ID = ''C'', Dependencies = [] \<rparr>]"

lemma relatedIssues_eval:
  "edgesOf (NewAnalyzer relatedIssues) = Some [(0, 1)]"
  "nodeOf (NewAnalyzer relatedIssues) ''A'' = Some 0"
  "nodeOf (NewAnalyzer relatedIssues) ''B'' = Some 1"
  by (simp_all add: edgesOf_def nodeOf_def NewAnalyzer_def relatedIssues_def Let_def NewNode_def
      AddNode_def NewDirectedGraph_def SetEdge_def)

text \<open>
  C1 (as stated): only dependencies of the blocking kind contribute an edge. The code never
  reads the kind of a dependency: issue A with a single dependency of kind \<open>related\<close> on
  issue B yields the edge from A's node 0 to B's node 1.
\<close>

theorem NewAnalyzer_related_edge:
  "edgesOf (NewAnalyzer relatedIssues) = Some [(0, 1)] \<and>
   nodeOf (NewAnalyzer relatedIssues) ''A'' = Some 0 \<and>
   nodeOf (NewAnalyzer relatedIssues) ''B'' = Some 1 \<and>
   map (\<lambda>i. map Type (Dependencies i)) relatedIssues = [[DepRelated], []]"
  by (simp add: relatedIssues_eval) (simp add: relatedIssues_def)

text \<open>
  C1 (amended): when \<open>NewAnalyzer\<close> returns, every issue id of the list has a node, and
  there is an edge from node u to node v exactly when some issue with node u declares a
  dependency, of any kind, on an id whose node is v, that is on an issue of the list.
\<close>

theorem NewAnalyzer_edges_any_kind:
  assumes "NewAnalyzer issues = Inr a"
  shows "dom (idToNode a) = ID ` set issues \<and>
         ((u, v) \<in> set (edges (graph a)) \<longleftrightarrow>
            (\<exists>issue \<in> set issues. \<exists>dep \<in> set (Dependencies issue).
               idToNode a (ID issue) = Some u \<and> idToNode a (DependsOnID dep) = Some v))"
proof -
  define a0 where "a0 = addNodes issues
      \<lparr> graph = NewDirectedGraph, idToNode = Map.empty, nodeToID = Map.empty, issueMap = Map.empty \<rparr>"
  from assms obtain gr where e: "addEdges (idToNode a0) issues (graph a0) = Inr gr"
    and a: "a = a0 \<lparr> graph := gr \<rparr>"
    by (auto simp: NewAnalyzer_def Let_def a0_def split: sum.splits)
  have d: "dom (idToNode a) = ID ` set issues"
    using a by (simp add: a0_def addNodes_dom)
  have "edges (graph a0) = []"
    by (simp add: a0_def addNodes_edges NewDirectedGraph_def)
  with addEdges_edges [OF e] a
  have "set (edges (graph a)) =
       {(u, v) | u v issue dep. issue \<in> set issues \<and> dep \<in> set (Dependencies issue) \<and>
           idToNode a (ID issue) = Some u \<and> idToNode a (DependsOnID dep) = Some v}"
    by simp
  then have "(u, v) \<in> set (edges (graph a)) \<longleftrightarrow>
            (\<exists>issue \<in> set issues. \<exists>dep \<in> set (Dependencies issue).
               idToNode a (ID issue) = Some u \<and> idToNode a (DependsOnID dep) = Some v)"
    by blast
  with d show ?thesis by simp
qed

theorem NewAnalyzer_edges_any_kind_witness:
  "\<exists>a. NewAnalyzer blockingIssues = Inr a \<and>
        dom (idToNode a) = ID ` set blockingIssues \<and>
        ((1, 2) \<in> set (edges (graph a)) \<longleftrightarrow>
           (\<exists>issue \<in> set blockingIssues. \<exists>dep \<in> set (Dependencies issue).
              idToNode a (ID issue) = Some 1 \<and> idToNode a (DependsOnID dep) = Some 2))"
proof -
  obtain a where a: "NewAnalyzer blockingIssues = Inr a"
    by (simp add: NewAnalyzer_def blockingIssues_def Let_def NewNode_def
        AddNode_def NewDirectedGraph_def SetEdge_def)
  from NewAnalyzer_edges_any_kind [OF a, of 1 2] a show ?thesis
    by blast
qed

section \<open>Critical-path heights (computeHeights)\<close>






text \<open>
  What \<open>topo.Sort\<close> returns on an acyclic graph: every node once, and the source of
  every edge before its target.
\<close>

definition pos :: "nat list \<Rightarrow> nat \<Rightarrow> nat" where
  "pos xs x = length (takeWhile (\<lambda>y. y \<noteq> x) xs)"































section \<open>Shape of the analyzer that NewAnalyzer builds\<close>

lemma NewNode_upt: "nodes gr = [0..<k] \<Longrightarrow> NewNode gr = k"
proof (cases k)
  case 0
  then show "nodes gr = [0..<k] \<Longrightarrow> NewNode gr = k" by (simp add: NewNode_def)
next
  case (Suc m)
  assume "nodes gr = [0..<k]"
  with Suc have "nodes gr \<noteq> []" and "set (nodes gr) = {0..m}" by auto
  moreover have "Max {0..m} = m" by (intro Max_eqI) auto
  ultimately show "NewNode gr = k" using Suc by (simp add: NewNode_def)
qed

lemma addNodes_step:
  assumes "nodes (graph a) = [0..<k]"
  shows "addNodes (issue # rest) a =
           addNodes rest (a \<lparr> graph := AddNode (graph a) k,
                idToNode := (idToNode a)(ID issue \<mapsto> k),
                nodeToID := (nodeToID a)(k \<mapsto> ID issue),
                issueMap := (issueMap a)(ID issue \<mapsto> issue) \<rparr>)"
  using NewNode_upt [OF assms] by (simp add: Let_def)

lemma addNodes_nodes:
  "nodes (graph a) = [0..<k] \<Longrightarrow> nodes (graph (addNodes issues a)) = [0..<k + length issues]"
proof (induction issues arbitrary: a k)
  case Nil
  then show ?case by simp
next
  case (Cons issue rest)
  have "nodes (AddNode (graph a) k) = [0..<Suc k]"
    using Cons.prems by (simp add: AddNode_def)
  then show ?case
    unfolding addNodes_step [OF Cons.prems] by (subst Cons.IH [where k = "Suc k"]) simp_all
qed








section \<open>The analysis entry point (Analyze)\<close>




















section \<open>Approximate betweenness (ApproxBetweenness, singleSourceBetweenness)\<close>

text \<open>
  Scores, path counts and distances are \<open>float64\<close> in the source and \<open>real\<close> here:
  the arithmetic is exact. A Go map read at a missing key gives the zero value
  (\<open>getf\<close>, \<open>getl\<close>).

  \<open>path.DijkstraFrom\<close> is gonum's; on this unweighted graph every edge costs 1, so the
  distance it reports is the number of hops, found here by a breadth-first search, and
  \<open>None\<close> stands for the \<open>+Inf\<close> of an unreachable node. \<open>sort.Slice\<close> is not
  stable; the stable sort used here is one admissible outcome.
\<close>

definition getf :: "(nat \<rightharpoonup> real) \<Rightarrow> nat \<Rightarrow> real" where
  "getf m k = (case m k of Some v \<Rightarrow> v | None \<Rightarrow> 0)"

definition getl :: "(nat \<rightharpoonup> nat list) \<Rightarrow> nat \<Rightarrow> nat list" where
  "getl m k = (case m k of Some l \<Rightarrow> l | None \<Rightarrow> [])"

fun bfs :: "DirectedGraph \<Rightarrow> nat \<Rightarrow> nat list \<Rightarrow> (nat \<rightharpoonup> nat) \<Rightarrow> nat \<Rightarrow> (nat \<rightharpoonup> nat)" where
  "bfs gr 0 frontier d k = d"
| "bfs gr (Suc fuel) frontier d k =
     (let next = remdups (filter (\<lambda>v. d v = None) (concat (map (From gr) frontier)))
      in if next = [] then d
         else bfs gr fuel next (fold (\<lambda>v d'. d'(v \<mapsto> Suc k)) next d) (Suc k))"

definition DijkstraFrom :: "nat \<Rightarrow> DirectedGraph \<Rightarrow> (nat \<rightharpoonup> nat)" where
  "DijkstraFrom source gr = bfs gr (length (nodes gr)) [source] [source \<mapsto> 0] 0"

type_synonym scratch =
  "(nat \<rightharpoonup> real) \<times> (nat \<rightharpoonup> real) \<times> (nat \<rightharpoonup> real) \<times> (nat \<rightharpoonup> nat list)"

text \<open>The four scratch maps, in the order sigma, dist, delta, pred.\<close>

fun initLoop :: "nat list \<Rightarrow> scratch \<Rightarrow> scratch" where
  "initLoop [] st = st"
| "initLoop (nid # ns) (sg, ds, dl, pr) =
     initLoop ns (sg(nid \<mapsto> 0), ds(nid \<mapsto> - 1), dl(nid \<mapsto> 0), pr(nid \<mapsto> []))"

fun distLoop :: "(nat \<rightharpoonup> nat) \<Rightarrow> nat \<Rightarrow> nat list \<Rightarrow> (nat \<rightharpoonup> real) \<times> (nat \<times> real) list
    \<Rightarrow> (nat \<rightharpoonup> real) \<times> (nat \<times> real) list" where
  "distLoop pt sourceID [] st = st"
| "distLoop pt sourceID (nid # ns) (ds, stack) =
     (case pt nid of
        None \<Rightarrow> distLoop pt sourceID ns (ds, stack)
      | Some d \<Rightarrow>
          if nid = sourceID then distLoop pt sourceID ns (ds, stack)
          else distLoop pt sourceID ns (ds(nid \<mapsto> real d), stack @ [(nid, real d)]))"

fun predLoop :: "(nat \<rightharpoonup> real) \<Rightarrow> real \<Rightarrow> nat \<Rightarrow> nat list \<Rightarrow> (nat \<rightharpoonup> nat list)
    \<Rightarrow> (nat \<rightharpoonup> nat list)" where
  "predLoop ds nodeDist nid [] pr = pr"
| "predLoop ds nodeDist nid (predID # rest) pr =
     (let predDist = getf ds predID
      in if predDist < 0 then predLoop ds nodeDist nid rest pr
         else if predDist + 1 = nodeDist
           then predLoop ds nodeDist nid rest (pr(nid \<mapsto> getl pr nid @ [predID]))
           else predLoop ds nodeDist nid rest pr)"

definition sigmaLoop :: "nat \<Rightarrow> nat list \<Rightarrow> (nat \<rightharpoonup> real) \<Rightarrow> (nat \<rightharpoonup> real)" where
  "sigmaLoop nid ps sg = fold (\<lambda>p sg'. sg'(nid \<mapsto> getf sg' nid + getf sg' p)) ps sg"

definition buildStep :: "DirectedGraph \<Rightarrow> nat \<Rightarrow> (nat \<rightharpoonup> real) \<Rightarrow> nat \<times> real
    \<Rightarrow> (nat \<rightharpoonup> real) \<times> (nat \<rightharpoonup> nat list) \<Rightarrow> (nat \<rightharpoonup> real) \<times> (nat \<rightharpoonup> nat list)" where
  "buildStep gr sourceID ds nd st =
     (case st of (sg, pr) \<Rightarrow>
        (let nid = fst nd; nodeDist = snd nd;
             pr1 = predLoop ds nodeDist nid (To gr nid) pr
         in if length (getl pr1 nid) > 0 then (sigmaLoop nid (getl pr1 nid) sg, pr1)
            else if nid \<noteq> sourceID then
              (if sourceID \<in> set (To gr nid) then (sg(nid \<mapsto> 1), pr1(nid \<mapsto> [sourceID]))
               else (sg, pr1))
            else (sg, pr1)))"

definition deltaLoop :: "(nat \<rightharpoonup> real) \<Rightarrow> nat \<Rightarrow> nat list \<Rightarrow> (nat \<rightharpoonup> real) \<Rightarrow> (nat \<rightharpoonup> real)" where
  "deltaLoop sg nid ps dl =
     fold (\<lambda>pid dl'. if getf sg nid > 0
                      then dl'(pid \<mapsto> getf dl' pid + (getf sg pid / getf sg nid) * (1 + getf dl' nid))
                      else dl') ps dl"

definition accumStep :: "nat \<Rightarrow> (nat \<rightharpoonup> real) \<Rightarrow> (nat \<rightharpoonup> nat list) \<Rightarrow> nat
    \<Rightarrow> (nat \<rightharpoonup> real) \<times> (nat \<rightharpoonup> real) \<Rightarrow> (nat \<rightharpoonup> real) \<times> (nat \<rightharpoonup> real)" where
  "accumStep sourceID sg pr nid st =
     (case st of (dl, bc) \<Rightarrow>
        if getf sg nid = 0 then (dl, bc)
        else
          (let dl1 = deltaLoop sg nid (getl pr nid) dl
           in if nid \<noteq> sourceID then (dl1, bc(nid \<mapsto> getf bc nid + getf dl1 nid))
              else (dl1, bc)))"

text \<open>
  The pass from its first statement to the end of the loop that builds sigma and the
  predecessor lists, on the scratch maps it is given: the result is the four maps and the
  sorted stack.
\<close>

definition buildPhase :: "DirectedGraph \<Rightarrow> nat \<Rightarrow> scratch \<Rightarrow> scratch \<times> (nat \<times> real) list" where
  "buildPhase gr sourceID st =
     (let pt = DijkstraFrom sourceID gr in
      case initLoop (nodes gr) st of (sg0, ds0, dl, pr0) \<Rightarrow>
        (let sg1 = sg0(sourceID \<mapsto> 1);
             ds1 = ds0(sourceID \<mapsto> 0)
         in case distLoop pt sourceID (nodes gr) (ds1, []) of (ds, stack0) \<Rightarrow>
              (let stack = sort_key snd stack0
               in case fold (buildStep gr sourceID ds) stack (sg1, pr0) of (sg, pr) \<Rightarrow>
                    ((sg, ds, dl, pr), stack))))"

definition accumPhase :: "nat \<Rightarrow> scratch \<times> (nat \<times> real) list \<Rightarrow> (nat \<rightharpoonup> real)
    \<Rightarrow> (nat \<rightharpoonup> real) \<times> (nat \<rightharpoonup> real)" where
  "accumPhase sourceID built bc =
     (case built of ((sg, ds, dl, pr), stack) \<Rightarrow>
        fold (accumStep sourceID sg pr) (rev (map fst stack)) (dl, bc))"

definition emptyScratch :: scratch where
  "emptyScratch = (Map.empty, Map.empty, Map.empty, Map.empty)"

definition singleSourceBetweenness :: "DirectedGraph \<Rightarrow> nat \<Rightarrow> (nat \<rightharpoonup> real) \<Rightarrow> (nat \<rightharpoonup> real)" where
  "singleSourceBetweenness gr source bc =
     snd (accumPhase source (buildPhase gr source emptyScratch) bc)"

text \<open>
  The random source is the parameter \<open>rnd\<close>: \<open>rnd i\<close> is the raw value of draw number
  \<open>i\<close>, and \<open>rng.Intn m\<close> is its remainder modulo \<open>m\<close>, so every outcome of the shuffle
  is covered. Slicing with a negative bound panics.
\<close>

definition swapAt :: "nat \<Rightarrow> nat \<Rightarrow> 'a list \<Rightarrow> 'a list" where
  "swapAt i j xs = xs[i := xs ! j, j := xs ! i]"

definition sampleNodes :: "(nat \<Rightarrow> nat) \<Rightarrow> nat list \<Rightarrow> int \<Rightarrow> panic + nat list" where
  "sampleNodes rnd ns k =
     (if k \<ge> int (length ns) then Inr ns
      else
        (let shuffled = fold (\<lambda>i xs. swapAt i (i + rnd i mod (length xs - i)) xs) [0..<nat k] ns
         in if k < 0 then Inl SliceBoundsOutOfRange else Inr (take (nat k) shuffled)))"

record BetweennessResult =
  Scores :: "nat \<rightharpoonup> real"
  Mode :: BetweennessMode
  SampleSize :: int
  TotalNodes :: int
  TimedOut :: bool

text \<open>
  \<open>network.Betweenness\<close> is gonum's exact routine; the map it returns for the graph is
  the parameter \<open>exact\<close>. The elapsed wall-clock time is not modelled.
\<close>

definition ApproxBetweenness :: "(nat \<rightharpoonup> real) \<Rightarrow> (nat \<Rightarrow> nat) \<Rightarrow> DirectedGraph \<Rightarrow> int
    \<Rightarrow> panic + BetweennessResult" where
  "ApproxBetweenness exact rnd gr sampleSize =
     (let n = length (nodes gr);
          result = \<lparr> Scores = Map.empty, Mode = BetweennessApproximate,
                     SampleSize = sampleSize, TotalNodes = int n, TimedOut = False \<rparr>
      in if n = 0 then Inr result
         else if sampleSize \<ge> int n then
           Inr (result \<lparr> Scores := exact, Mode := BetweennessExact, SampleSize := int n \<rparr>)
         else
           (case sampleNodes rnd (nodes gr) sampleSize of
              Inl e \<Rightarrow> Inl e
            | Inr pivots \<Rightarrow>
                (let partialBC = fold (singleSourceBetweenness gr) pivots Map.empty;
                     scale = real n / real_of_int sampleSize
                 in Inr (result \<lparr> Scores := (\<lambda>id. map_option (\<lambda>v. v * scale) (partialBC id)) \<rparr>))))"

definition pathGraph :: DirectedGraph where
  "pathGraph = \<lparr> nodes = [0, 1, 2], edges = [(0, 1), (1, 2)] \<rparr>"

definition firstNode :: "nat \<Rightarrow> nat" where
  "firstNode i = 0"


section \<open>The fallback to the exact routine\<close>

definition exactOnPath :: "nat \<rightharpoonup> real" where
  "exactOnPath = [1 \<mapsto> 1]"

text \<open>
  C2: when the sample size is at least the node count, \<open>ApproxBetweenness\<close> returns the
  scores of the exact routine. For a graph with nodes it returns the routine's map
  itself, with mode exact; for the empty graph it returns the empty map without calling
  the routine, which is what the routine returns there (the hypothesis on \<open>exact\<close>).
\<close>

theorem ApproxBetweenness_fallback:
  assumes "int (length (nodes gr)) \<le> sampleSize"
    and "nodes gr = [] \<longrightarrow> exact = Map.empty"
  shows "\<exists>r. ApproxBetweenness exact rnd gr sampleSize = Inr r \<and> Scores r = exact \<and>
             (nodes gr \<noteq> [] \<longrightarrow> Mode r = BetweennessExact \<and>
                SampleSize r = int (length (nodes gr)))"
  using assms by (simp add: ApproxBetweenness_def Let_def)

theorem ApproxBetweenness_fallback_witness:
  "int (length (nodes pathGraph)) \<le> 3 \<and>
   (\<exists>r. ApproxBetweenness exactOnPath firstNode pathGraph 3 = Inr r \<and>
        Scores r = exactOnPath \<and> Mode r = BetweennessExact \<and> SampleSize r = 3)"
proof -
  have a: "int (length (nodes pathGraph)) \<le> 3" by (simp add: pathGraph_def)
  have b: "nodes pathGraph = [] \<longrightarrow> exactOnPath = Map.empty" by (simp add: pathGraph_def)
  from ApproxBetweenness_fallback [OF a b, of firstNode] a show ?thesis
    by (auto simp: pathGraph_def)
qed

section \<open>Path counts are whole and non-negative\<close>

definition counts :: "(nat \<rightharpoonup> real) \<Rightarrow> bool" where
  "counts sg \<longleftrightarrow> (\<forall>k. getf sg k = 0 \<or> 1 \<le> getf sg k)"

lemma getf_upd [simp]: "getf (m(k \<mapsto> v)) k' = (if k' = k then v else getf m k')"
  by (simp add: getf_def)

lemma getl_upd [simp]: "getl (m(k \<mapsto> v)) k' = (if k' = k then v else getl m k')"
  by (simp add: getl_def)

lemma getf_empty [simp]: "getf Map.empty k = 0"
  by (simp add: getf_def)

lemma getl_empty [simp]: "getl Map.empty k = []"
  by (simp add: getl_def)

lemma counts_upd: "counts sg \<Longrightarrow> v = 0 \<or> 1 \<le> v \<Longrightarrow> counts (sg(k \<mapsto> v))"
  by (simp add: counts_def)

lemma counts_add: "counts sg \<Longrightarrow> getf sg a + getf sg b = 0 \<or> 1 \<le> getf sg a + getf sg b"
proof -
  assume c: "counts sg"
  then have "getf sg a = 0 \<or> 1 \<le> getf sg a" "getf sg b = 0 \<or> 1 \<le> getf sg b"
    by (simp_all add: counts_def)
  then show ?thesis by auto
qed

lemma counts_sigmaLoop: "counts sg \<Longrightarrow> counts (sigmaLoop nid ps sg)"
  unfolding sigmaLoop_def
  by (induction ps arbitrary: sg) (simp_all add: counts_upd counts_add)

lemma counts_buildStep:
  assumes "counts sg" shows "counts (fst (buildStep gr sourceID ds nd (sg, pr)))"
  using assms by (simp add: buildStep_def Let_def counts_sigmaLoop counts_upd)

lemma counts_fold_buildStep:
  "counts (fst st) \<Longrightarrow> counts (fst (fold (buildStep gr sourceID ds) stack st))"
proof (induction stack arbitrary: st)
  case Nil
  then show ?case by simp
next
  case (Cons nd stack)
  obtain sg pr where st: "st = (sg, pr)" by (cases st)
  with Cons.prems have "counts (fst (buildStep gr sourceID ds nd st))"
    using counts_buildStep by simp
  from Cons.IH [OF this] show ?case by simp
qed

lemma initLoop_sigma:
  "getf (fst (initLoop ns (sg, ds, dl, pr))) k = (if k \<in> set ns then 0 else getf sg k)"
  by (induction ns arbitrary: sg ds dl pr) auto

lemma initLoop_delta:
  "getf (fst (snd (snd (initLoop ns (sg, ds, dl, pr))))) k = (if k \<in> set ns then 0 else getf dl k)"
  by (induction ns arbitrary: sg ds dl pr) auto

lemma initLoop_pred:
  "getl (snd (snd (snd (initLoop ns (sg, ds, dl, pr))))) k = (if k \<in> set ns then [] else getl pr k)"
  by (induction ns arbitrary: sg ds dl pr) auto

text \<open>What the build phase returns, component by component.\<close>

lemma buildPhase_parts:
  assumes "buildPhase gr sourceID st = ((sg, ds, dl, pr), stack)"
  obtains sg0 ds0 pr0 stack0 where
    "initLoop (nodes gr) st = (sg0, ds0, dl, pr0)"
    "distLoop (DijkstraFrom sourceID gr) sourceID (nodes gr) (ds0(sourceID \<mapsto> 0), []) = (ds, stack0)"
    "stack = sort_key snd stack0"
    "fold (buildStep gr sourceID ds) stack (sg0(sourceID \<mapsto> 1), pr0) = (sg, pr)"
  using assms
  by (auto simp: buildPhase_def Let_def split: prod.splits)

lemma buildPhase_counts:
  assumes "buildPhase gr sourceID emptyScratch = ((sg, ds, dl, pr), stack)"
  shows "counts sg"
proof -
  from assms obtain sg0 ds0 pr0 stack0 where
    i: "initLoop (nodes gr) emptyScratch = (sg0, ds0, dl, pr0)"
    and f: "fold (buildStep gr sourceID ds) stack (sg0(sourceID \<mapsto> 1), pr0) = (sg, pr)"
    by (rule buildPhase_parts)
  have "getf sg0 k = 0" for k
    using initLoop_sigma [of "nodes gr" Map.empty Map.empty Map.empty Map.empty k] i
    by (simp add: emptyScratch_def)
  then have "counts (sg0(sourceID \<mapsto> 1))" by (simp add: counts_def)
  from counts_fold_buildStep [of "(sg0(sourceID \<mapsto> 1), pr0)", OF _] this f show ?thesis
    by (metis fst_conv)
qed

lemma deltaLoop_guard: "getf sg nid \<le> 0 \<Longrightarrow> deltaLoop sg nid ps dl = dl"
  unfolding deltaLoop_def by (induction ps arbitrary: dl) simp_all

text \<open>
  C9: after the build phase of a single-source pass, every node of the stack that the
  accumulation loop does not skip (sigma different from 0) has sigma at least 1; a
  node with sigma 0 leaves the dependency map and the caller's accumulator exactly as
  they were; and the statement that divides by sigma is only reached with sigma above 0.
\<close>

theorem singleSource_division_safe:
  assumes "buildPhase gr source emptyScratch = ((sg, ds, dl, pr), stack)"
  shows "(\<forall>nid \<in> set (map fst stack). getf sg nid \<noteq> 0 \<longrightarrow> 1 \<le> getf sg nid) \<and>
         (\<forall>nid dl' bc. getf sg nid = 0 \<longrightarrow> accumStep source sg pr nid (dl', bc) = (dl', bc)) \<and>
         (\<forall>nid ps dl'. \<not> 1 \<le> getf sg nid \<longrightarrow> deltaLoop sg nid ps dl' = dl')"
proof -
  from buildPhase_counts [OF assms] have c: "getf sg k = 0 \<or> 1 \<le> getf sg k" for k
    by (simp add: counts_def)
  have "deltaLoop sg nid ps dl' = dl'" if "\<not> 1 \<le> getf sg nid" for nid ps dl'
    using c [of nid] that by (intro deltaLoop_guard) auto
  moreover have "accumStep source sg pr nid (dl', bc) = (dl', bc)" if "getf sg nid = 0" for nid dl' bc
    using that by (simp add: accumStep_def)
  ultimately show ?thesis using c by blast
qed

theorem singleSource_division_safe_witness:
  "\<exists>sg ds dl pr stack. buildPhase pathGraph 0 emptyScratch = ((sg, ds, dl, pr), stack) \<and>
      map fst stack = [1, 2] \<and> getf sg 2 \<noteq> 0 \<and> 1 \<le> getf sg 2 \<and>
      getf sg 7 = 0 \<and> accumStep 0 sg pr 7 (Map.empty, Map.empty) = (Map.empty, Map.empty) \<and>
      deltaLoop sg 7 [0] Map.empty = Map.empty"
proof -
  obtain sg ds dl pr stack where bp: "buildPhase pathGraph 0 emptyScratch = ((sg, ds, dl, pr), stack)"
    by (metis prod.exhaust)
  have "map fst (snd (buildPhase pathGraph 0 emptyScratch)) = [1, 2]" by code_simp
  then have ids: "map fst stack = [1, 2]" by (simp add: bp)
  have "getf (fst (fst (buildPhase pathGraph 0 emptyScratch))) 2 = 1" by code_simp
  then have s2: "getf sg 2 \<noteq> 0" by (simp add: bp)
  have "getf (fst (fst (buildPhase pathGraph 0 emptyScratch))) 7 = 0" by code_simp
  then have s7: "getf sg 7 = 0" by (simp add: bp)
  from singleSource_division_safe [OF bp] ids s2 s7
  have "1 \<le> getf sg 2"
    and "accumStep 0 sg pr 7 (Map.empty, Map.empty) = (Map.empty, Map.empty)"
    and "deltaLoop sg 7 [0] Map.empty = Map.empty"
    by auto
  with bp ids s2 s7
  have "buildPhase pathGraph 0 emptyScratch = ((sg, ds, dl, pr), stack) \<and>
      map fst stack = [1, 2] \<and> getf sg 2 \<noteq> 0 \<and> 1 \<le> getf sg 2 \<and>
      getf sg 7 = 0 \<and> accumStep 0 sg pr 7 (Map.empty, Map.empty) = (Map.empty, Map.empty) \<and>
      deltaLoop sg 7 [0] Map.empty = Map.empty"
    by simp
  then show ?thesis by - (rule exI)+
qed

section \<open>One pass adds at most n - 2 to any score\<close>

text \<open>
  The invariant of gonum's graph: no node and no edge is stored twice, and both ends of
  every edge are nodes.
\<close>

definition wf_graph :: "DirectedGraph \<Rightarrow> bool" where
  "wf_graph gr \<longleftrightarrow>
     distinct (nodes gr) \<and> distinct (edges gr) \<and>
     list_all (\<lambda>e. fst e \<in> set (nodes gr) \<and> snd e \<in> set (nodes gr)) (edges gr)"

lemma To_iff: "u \<in> set (To gr v) \<longleftrightarrow> (u, v) \<in> set (edges gr)"
  by (force simp: To_def)


lemma wf_To_nodes: "wf_graph gr \<Longrightarrow> u \<in> set (To gr v) \<Longrightarrow> u \<in> set (nodes gr)"
  by (auto simp: wf_graph_def To_iff list_all_iff)


definition reached :: "(nat \<rightharpoonup> nat) \<Rightarrow> nat \<Rightarrow> nat list \<Rightarrow> (nat \<times> real) list" where
  "reached pt src ns =
     concat (map (\<lambda>k. case pt k of None \<Rightarrow> [] | Some d \<Rightarrow> if k = src then [] else [(k, real d)]) ns)"

lemma distLoop_stack:
  "snd (distLoop pt src ns (ds, stack)) = stack @ reached pt src ns"
  by (induction ns arbitrary: ds stack) (auto simp: reached_def split: option.splits)

lemma reached_mem:
  "(k, d) \<in> set (reached pt src ns) \<longleftrightarrow>
     k \<in> set ns \<and> k \<noteq> src \<and> (\<exists>d'. pt k = Some d' \<and> d = real d')"
  by (auto simp: reached_def split: option.splits if_splits)

lemma distLoop_dist:
  "getf (fst (distLoop pt src ns (ds, stack))) k =
     (case pt k of
        Some d \<Rightarrow> if k \<in> set ns \<and> k \<noteq> src then real d else getf ds k
      | None \<Rightarrow> getf ds k)"
  by (induction ns arbitrary: ds stack) (auto split: option.splits)

lemma initLoop_dist:
  "getf (fst (snd (initLoop ns (sg, ds, dl, pr)))) k = (if k \<in> set ns then - 1 else getf ds k)"
  by (induction ns arbitrary: sg ds dl pr) auto

lemma predLoop_getl:
  "getl (predLoop ds d nid ps pr) k =
     (if k = nid then getl pr nid @ filter (\<lambda>p. 0 \<le> getf ds p \<and> getf ds p + 1 = d) ps
      else getl pr k)"
  by (induction ps arbitrary: pr) (auto simp: Let_def)



text \<open>
  The state of the build loop after the nodes \<open>ids\<close> (in stack order): every
  predecessor of a processed node is the source or an earlier node, sigma of a processed
  node is the sum of sigma over its predecessors, and nothing else has been written.
\<close>

fun preds_earlier :: "nat \<Rightarrow> (nat \<rightharpoonup> nat list) \<Rightarrow> nat list \<Rightarrow> bool" where
  "preds_earlier src pr [] = True"
| "preds_earlier src pr (y # rest) =
     (y \<notin> set rest \<and> y \<noteq> src \<and> distinct (getl pr y) \<and>
      set (getl pr y) \<subseteq> insert src (set rest) \<and> preds_earlier src pr rest)"

definition built :: "nat \<Rightarrow> nat list \<Rightarrow> (nat \<rightharpoonup> real) \<Rightarrow> (nat \<rightharpoonup> nat list) \<Rightarrow> bool" where
  "built src ids sg pr \<longleftrightarrow>
     preds_earlier src pr (rev ids) \<and>
     (\<forall>y \<in> set ids. sum_list (map (getf sg) (getl pr y)) = getf sg y) \<and>
     (\<forall>k. k \<notin> set ids \<longrightarrow> getl pr k = [] \<and> getf sg k = (if k = src then 1 else 0)) \<and>
     (\<forall>k. 0 \<le> getf sg k)"



















section \<open>Pooled scratch buffers\<close>

text \<open>
  The repository's optimisation plan gives the buffer bundle, the pool and \<open>reset\<close> in
  code, and describes the pooled pass as the pass above with the bundle's maps in place
  of the four fresh maps. \<open>len\<close> of a map is the number of its keys. A bundle taken from
  the pool holds whatever an earlier pass, possibly on another graph, left in it.
\<close>

record brandesBuffers =
  sigmaBuf :: "nat \<rightharpoonup> real"
  distBuf :: "nat \<rightharpoonup> real"
  deltaBuf :: "nat \<rightharpoonup> real"
  predBuf :: "nat \<rightharpoonup> nat list"
  queueBuf :: "nat list"
  stackBuf :: "(nat \<times> real) list"
  neighborsBuf :: "nat list"

fun resetLoop :: "nat list \<Rightarrow> scratch \<Rightarrow> scratch" where
  "resetLoop [] st = st"
| "resetLoop (nid # ns) (sg, ds, dl, pr) =
     resetLoop ns (sg(nid \<mapsto> 0), ds(nid \<mapsto> - 1), dl(nid \<mapsto> 0),
       (case pr nid of Some existing \<Rightarrow> pr(nid \<mapsto> take 0 existing) | None \<Rightarrow> pr(nid \<mapsto> [])))"

definition reset :: "brandesBuffers \<Rightarrow> nat list \<Rightarrow> brandesBuffers" where
  "reset b ns =
     (let b1 = (if card (dom (sigmaBuf b)) > length ns * 2
                then b \<lparr> sigmaBuf := Map.empty, distBuf := Map.empty,
                         deltaBuf := Map.empty, predBuf := Map.empty \<rparr>
                else b)
      in case resetLoop ns (sigmaBuf b1, distBuf b1, deltaBuf b1, predBuf b1) of
           (sg, ds, dl, pr) \<Rightarrow>
             b1 \<lparr> sigmaBuf := sg, distBuf := ds, deltaBuf := dl, predBuf := pr,
                  queueBuf := [], stackBuf := [], neighborsBuf := [] \<rparr>)"

text \<open>The pass from the statement after the initialisation loop to the end of the build loop.\<close>

definition buildAfterInit :: "DirectedGraph \<Rightarrow> nat \<Rightarrow> scratch \<Rightarrow> scratch \<times> (nat \<times> real) list" where
  "buildAfterInit gr sourceID st =
     (let pt = DijkstraFrom sourceID gr in
      case st of (sg0, ds0, dl, pr0) \<Rightarrow>
        (let sg1 = sg0(sourceID \<mapsto> 1);
             ds1 = ds0(sourceID \<mapsto> 0)
         in case distLoop pt sourceID (nodes gr) (ds1, []) of (ds, stack0) \<Rightarrow>
              (let stack = sort_key snd stack0
               in case fold (buildStep gr sourceID ds) stack (sg1, pr0) of (sg, pr) \<Rightarrow>
                    ((sg, ds, dl, pr), stack))))"

text \<open>
  Modelled from the spec: the pooled single-source pass, which the repository has only as
  a plan. A bundle is checked out, reset for the graph's nodes, used for the pass in place
  of fresh maps, and handed back with what the pass left in it.
\<close>

definition singleSourceBetweennessPooled :: "brandesBuffers \<Rightarrow> DirectedGraph \<Rightarrow> nat
    \<Rightarrow> (nat \<rightharpoonup> real) \<Rightarrow> (nat \<rightharpoonup> real) \<times> brandesBuffers" where
  "singleSourceBetweennessPooled buf gr source bc =
     (let b = reset buf (nodes gr) in
      case buildAfterInit gr source (sigmaBuf b, distBuf b, deltaBuf b, predBuf b) of
        ((sg, ds, dl, pr), stack) \<Rightarrow>
          (case accumPhase source ((sg, ds, dl, pr), stack) bc of
             (dl', bc') \<Rightarrow>
               (bc', b \<lparr> sigmaBuf := sg, distBuf := ds, deltaBuf := dl', predBuf := pr,
                         stackBuf := stack \<rparr>)))"

definition staleBuffers :: brandesBuffers where
  "staleBuffers = \<lparr> sigmaBuf = [1 \<mapsto> 5, 9 \<mapsto> 2], distBuf = [1 \<mapsto> 4, 9 \<mapsto> 0],
     deltaBuf = [1 \<mapsto> 3, 2 \<mapsto> 8, 9 \<mapsto> 1], predBuf = [1 \<mapsto> [9], 2 \<mapsto> [1, 0]],
     queueBuf = [9], stackBuf = [(9, 0)], neighborsBuf = [1] \<rparr>"

lemma buildPhase_split: "buildPhase gr src st = buildAfterInit gr src (initLoop (nodes gr) st)"
  by (simp add: buildPhase_def buildAfterInit_def)

lemma resetLoop_initLoop: "resetLoop ns st = initLoop ns st"
proof (induction ns arbitrary: st)
  case Nil
  then show ?case by simp
next
  case (Cons n ns)
  obtain sg ds dl pr where st: "st = (sg, ds, dl, pr)" by (cases st) auto
  show ?case unfolding st by (simp add: Cons.IH split: option.splits)
qed

text \<open>
  Two maps agree on a set of keys when they read the same there. The pass reads and
  writes its scratch maps only at nodes of the graph, so it maps agreeing scratch maps to
  agreeing scratch maps and to equal scores.
\<close>

definition agf :: "nat set \<Rightarrow> (nat \<rightharpoonup> real) \<Rightarrow> (nat \<rightharpoonup> real) \<Rightarrow> bool" where
  "agf N m m' \<longleftrightarrow> (\<forall>k \<in> N. getf m k = getf m' k)"

definition agl :: "nat set \<Rightarrow> (nat \<rightharpoonup> nat list) \<Rightarrow> (nat \<rightharpoonup> nat list) \<Rightarrow> bool" where
  "agl N m m' \<longleftrightarrow> (\<forall>k \<in> N. getl m k = getl m' k)"

definition closed_preds :: "nat set \<Rightarrow> (nat \<rightharpoonup> nat list) \<Rightarrow> bool" where
  "closed_preds N pr \<longleftrightarrow> (\<forall>k \<in> N. set (getl pr k) \<subseteq> N)"

lemma agf_upd: "agf N m m' \<Longrightarrow> v = v' \<Longrightarrow> agf N (m(k \<mapsto> v)) (m'(k \<mapsto> v'))"
  by (simp add: agf_def)

lemma agl_upd: "agl N m m' \<Longrightarrow> v = v' \<Longrightarrow> agl N (m(k \<mapsto> v)) (m'(k \<mapsto> v'))"
  by (simp add: agl_def)

lemma initLoop_agree:
  assumes "initLoop ns st = (sg, ds, dl, pr)" and "initLoop ns st' = (sg', ds', dl', pr')"
  shows "agf (set ns) sg sg'" and "agf (set ns) ds ds'" and "agf (set ns) dl dl'"
    and "agl (set ns) pr pr'" and "closed_preds (set ns) pr"
proof -
  obtain a b c d where st: "st = (a, b, c, d)" by (cases st) auto
  obtain a' b' c' d' where st': "st' = (a', b', c', d')" by (cases st') auto
  have 1: "getf sg k = 0" "getf ds k = - 1" "getf dl k = 0" "getl pr k = []" if "k \<in> set ns" for k
    using initLoop_sigma [of ns a b c d k] initLoop_dist [of ns a b c d k]
      initLoop_delta [of ns a b c d k] initLoop_pred [of ns a b c d k] assms(1) that
    by (simp_all add: st)
  have 2: "getf sg' k = 0" "getf ds' k = - 1" "getf dl' k = 0" "getl pr' k = []" if "k \<in> set ns" for k
    using initLoop_sigma [of ns a' b' c' d' k] initLoop_dist [of ns a' b' c' d' k]
      initLoop_delta [of ns a' b' c' d' k] initLoop_pred [of ns a' b' c' d' k] assms(2) that
    by (simp_all add: st')
  show "agf (set ns) sg sg'" "agf (set ns) ds ds'" "agf (set ns) dl dl'"
    by (simp_all add: agf_def 1 2)
  show "agl (set ns) pr pr'" by (simp add: agl_def 1 2)
  show "closed_preds (set ns) pr" by (simp add: closed_preds_def 1)
qed

lemma distLoop_agree:
  "agf N ds ds' \<Longrightarrow>
     agf N (fst (distLoop pt src ns (ds, stk))) (fst (distLoop pt src ns (ds', stk)))"
  by (auto simp: agf_def distLoop_dist split: option.splits)

lemma predLoop_agree:
  assumes "agf N ds ds'" and "agl N pr pr'" and "nid \<in> N" and "set ps \<subseteq> N"
  shows "agl N (predLoop ds d nid ps pr) (predLoop ds' d nid ps pr')"
proof -
  have "filter (\<lambda>p. 0 \<le> getf ds p \<and> getf ds p + 1 = d) ps =
        filter (\<lambda>p. 0 \<le> getf ds' p \<and> getf ds' p + 1 = d) ps"
    using assms(1,4) by (intro filter_cong) (auto simp: agf_def)
  with assms(2,3) show ?thesis by (simp add: agl_def predLoop_getl)
qed

lemma predLoop_closed:
  assumes "closed_preds N pr" and "set ps \<subseteq> N"
  shows "closed_preds N (predLoop ds d nid ps pr)"
  using assms by (auto simp: closed_preds_def predLoop_getl)

lemma sigmaLoop_Cons:
  "sigmaLoop nid (p # ps) sg = sigmaLoop nid ps (sg(nid \<mapsto> getf sg nid + getf sg p))"
  by (simp add: sigmaLoop_def)

lemma deltaLoop_Cons:
  "deltaLoop sg nid (p # ps) dl =
     deltaLoop sg nid ps
       (if getf sg nid > 0
        then dl(p \<mapsto> getf dl p + (getf sg p / getf sg nid) * (1 + getf dl nid)) else dl)"
  by (simp add: deltaLoop_def)

lemma sigmaLoop_agree:
  "agf N sg sg' \<Longrightarrow> nid \<in> N \<Longrightarrow> set ps \<subseteq> N \<Longrightarrow>
     agf N (sigmaLoop nid ps sg) (sigmaLoop nid ps sg')"
proof (induction ps arbitrary: sg sg')
  case Nil
  then show ?case by (simp add: sigmaLoop_def)
next
  case (Cons p ps)
  have a: "agf N (sg(nid \<mapsto> getf sg nid + getf sg p)) (sg'(nid \<mapsto> getf sg' nid + getf sg' p))"
    using Cons.prems by (intro agf_upd) (auto simp: agf_def)
  have r: "set ps \<subseteq> N" using Cons.prems(3) by simp
  show ?case unfolding sigmaLoop_Cons by (rule Cons.IH [OF a Cons.prems(2) r])
qed

lemma buildStep_agree:
  assumes ds: "agf N ds ds'" and sg: "agf N sg sg'" and pr: "agl N pr pr'"
    and cl: "closed_preds N pr" and nid: "nid \<in> N" and src: "src \<in> N"
    and to: "set (To gr nid) \<subseteq> N"
  shows "agf N (fst (buildStep gr src ds (nid, d) (sg, pr))) (fst (buildStep gr src ds' (nid, d) (sg', pr')))"
    and "agl N (snd (buildStep gr src ds (nid, d) (sg, pr))) (snd (buildStep gr src ds' (nid, d) (sg', pr')))"
    and "closed_preds N (snd (buildStep gr src ds (nid, d) (sg, pr)))"
proof -
  let ?pr1 = "predLoop ds d nid (To gr nid) pr"
  let ?pr1' = "predLoop ds' d nid (To gr nid) pr'"
  have a1: "agl N ?pr1 ?pr1'" by (rule predLoop_agree [OF ds pr nid to])
  have c1: "closed_preds N ?pr1" by (rule predLoop_closed [OF cl to])
  from a1 nid have same: "getl ?pr1' nid = getl ?pr1 nid" by (simp add: agl_def)
  from c1 nid have sub: "set (getl ?pr1 nid) \<subseteq> N" by (simp add: closed_preds_def)
  have s1: "agf N (sigmaLoop nid (getl ?pr1 nid) sg) (sigmaLoop nid (getl ?pr1 nid) sg')"
    by (rule sigmaLoop_agree [OF sg nid sub])
  have s2: "agf N (sg(nid \<mapsto> 1)) (sg'(nid \<mapsto> 1))" by (rule agf_upd [OF sg refl])
  have p2: "agl N (?pr1(nid \<mapsto> [src])) (?pr1'(nid \<mapsto> [src]))" by (rule agl_upd [OF a1 refl])
  have c2: "closed_preds N (?pr1(nid \<mapsto> [src]))"
    using c1 src by (simp add: closed_preds_def)
  show "agf N (fst (buildStep gr src ds (nid, d) (sg, pr))) (fst (buildStep gr src ds' (nid, d) (sg', pr')))"
    using s1 s2 sg by (auto simp: buildStep_def Let_def same)
  show "agl N (snd (buildStep gr src ds (nid, d) (sg, pr))) (snd (buildStep gr src ds' (nid, d) (sg', pr')))"
    using a1 p2 by (auto simp: buildStep_def Let_def same)
  show "closed_preds N (snd (buildStep gr src ds (nid, d) (sg, pr)))"
    using c1 c2 by (auto simp: buildStep_def Let_def)
qed

lemma fold_buildStep_agree:
  assumes ds: "agf N ds ds'" and src: "src \<in> N"
    and to: "\<And>v. set (To gr v) \<subseteq> N"
  shows "fst ` set stack \<subseteq> N \<Longrightarrow> agf N sg sg' \<Longrightarrow> agl N pr pr' \<Longrightarrow> closed_preds N pr \<Longrightarrow>
     agf N (fst (fold (buildStep gr src ds) stack (sg, pr)))
           (fst (fold (buildStep gr src ds') stack (sg', pr'))) \<and>
     agl N (snd (fold (buildStep gr src ds) stack (sg, pr)))
           (snd (fold (buildStep gr src ds') stack (sg', pr'))) \<and>
     closed_preds N (snd (fold (buildStep gr src ds) stack (sg, pr)))"
proof (induction stack arbitrary: sg sg' pr pr')
  case Nil
  then show ?case by simp
next
  case (Cons x stack)
  obtain nid d where x: "x = (nid, d)" by (cases x)
  with Cons.prems(1) have nid: "nid \<in> N" and rest: "fst ` set stack \<subseteq> N" by auto
  obtain sg1 pr1 where b1: "buildStep gr src ds (nid, d) (sg, pr) = (sg1, pr1)"
    by (cases "buildStep gr src ds (nid, d) (sg, pr)")
  obtain sg1' pr1' where b1': "buildStep gr src ds' (nid, d) (sg', pr') = (sg1', pr1')"
    by (cases "buildStep gr src ds' (nid, d) (sg', pr')")
  from buildStep_agree [OF ds Cons.prems(2,3,4) nid src to, of d] b1 b1'
  have "agf N sg1 sg1'" "agl N pr1 pr1'" "closed_preds N pr1" by simp_all
  from Cons.IH [OF rest this] show ?case by (simp add: x b1 b1')
qed

lemma deltaLoop_agree:
  assumes sg: "agf N sg sg'" and nid: "nid \<in> N"
  shows "agf N dl dl' \<Longrightarrow> set ps \<subseteq> N \<Longrightarrow>
     agf N (deltaLoop sg nid ps dl) (deltaLoop sg' nid ps dl')"
proof (induction ps arbitrary: dl dl')
  case Nil
  then show ?case by (simp add: deltaLoop_def)
next
  case (Cons p ps)
  from sg nid have g: "getf sg' nid = getf sg nid" by (simp add: agf_def)
  from Cons.prems have p: "p \<in> N" and rest: "set ps \<subseteq> N" by simp_all
  show ?case
  proof (cases "getf sg nid > 0")
    case True
    have "agf N (dl(p \<mapsto> getf dl p + (getf sg p / getf sg nid) * (1 + getf dl nid)))
                (dl'(p \<mapsto> getf dl' p + (getf sg' p / getf sg' nid) * (1 + getf dl' nid)))"
      using Cons.prems(1) sg p nid by (intro agf_upd) (auto simp: agf_def)
    from Cons.IH [OF this rest] show ?thesis
      unfolding deltaLoop_Cons g using True by (simp only: if_True)
  next
    case False
    from Cons.IH [OF Cons.prems(1) rest] show ?thesis
      unfolding deltaLoop_Cons g using False by (simp only: if_False)
  qed
qed

lemma fold_accumStep_agree:
  assumes sg: "agf N sg sg'" and pr: "agl N pr pr'" and cl: "closed_preds N pr"
  shows "set ys \<subseteq> N \<Longrightarrow> agf N dl dl' \<Longrightarrow>
     snd (fold (accumStep src sg pr) ys (dl, bc)) = snd (fold (accumStep src sg' pr') ys (dl', bc))"
proof (induction ys arbitrary: dl dl' bc)
  case Nil
  then show ?case by simp
next
  case (Cons y ys)
  then have y: "y \<in> N" and rest: "set ys \<subseteq> N" by simp_all
  from sg y have g: "getf sg' y = getf sg y" by (simp add: agf_def)
  from pr y have l: "getl pr' y = getl pr y" by (simp add: agl_def)
  from cl y have sub: "set (getl pr y) \<subseteq> N" by (simp add: closed_preds_def)
  have f: "fold (accumStep src sg pr) (y # ys) (dl, bc) =
      fold (accumStep src sg pr) ys (accumStep src sg pr y (dl, bc))" by simp
  have f': "fold (accumStep src sg' pr') (y # ys) (dl', bc) =
      fold (accumStep src sg' pr') ys (accumStep src sg' pr' y (dl', bc))" by simp
  show ?case
  proof (cases "getf sg y = 0")
    case True
    have st: "accumStep src sg pr y (dl, bc) = (dl, bc)"
      using True by (simp add: accumStep_def)
    have st': "accumStep src sg' pr' y (dl', bc) = (dl', bc)"
      using True g by (simp add: accumStep_def)
    show ?thesis unfolding f f' st st' by (rule Cons.IH [OF rest Cons.prems(2)])
  next
    case False
    let ?d = "deltaLoop sg y (getl pr y) dl"
    let ?d' = "deltaLoop sg' y (getl pr y) dl'"
    let ?bc = "if y \<noteq> src then bc(y \<mapsto> getf bc y + getf ?d y) else bc"
    have a: "agf N ?d ?d'" by (rule deltaLoop_agree [OF sg y Cons.prems(2) sub])
    then have e: "getf ?d' y = getf ?d y" using y by (simp add: agf_def)
    have st: "accumStep src sg pr y (dl, bc) = (?d, ?bc)"
      using False by (simp add: accumStep_def Let_def)
    have st': "accumStep src sg' pr' y (dl', bc) = (?d', ?bc)"
      using False g l e by (simp add: accumStep_def Let_def)
    show ?thesis unfolding f f' st st' by (rule Cons.IH [OF rest a])
  qed
qed

lemma pass_agree:
  assumes wf: "wf_graph gr" and src: "src \<in> set (nodes gr)"
    and a: "agf (set (nodes gr)) sg0 sg0'" "agf (set (nodes gr)) ds0 ds0'"
      "agf (set (nodes gr)) dl0 dl0'" "agl (set (nodes gr)) pr0 pr0'"
    and cl: "closed_preds (set (nodes gr)) pr0"
  shows "snd (accumPhase src (buildAfterInit gr src (sg0, ds0, dl0, pr0)) bc) =
         snd (accumPhase src (buildAfterInit gr src (sg0', ds0', dl0', pr0')) bc)"
proof -
  let ?N = "set (nodes gr)"
  let ?pt = "DijkstraFrom src gr"
  let ?stack = "sort_key snd (reached ?pt src (nodes gr))"
  obtain ds where ds: "distLoop ?pt src (nodes gr) (ds0(src \<mapsto> 0), []) = (ds, reached ?pt src (nodes gr))"
    using distLoop_stack [of ?pt src "nodes gr" "ds0(src \<mapsto> 0)" "[]"]
    by (cases "distLoop ?pt src (nodes gr) (ds0(src \<mapsto> 0), [])") simp
  obtain ds' where ds': "distLoop ?pt src (nodes gr) (ds0'(src \<mapsto> 0), []) = (ds', reached ?pt src (nodes gr))"
    using distLoop_stack [of ?pt src "nodes gr" "ds0'(src \<mapsto> 0)" "[]"]
    by (cases "distLoop ?pt src (nodes gr) (ds0'(src \<mapsto> 0), [])") simp
  have "agf ?N (ds0(src \<mapsto> 0)) (ds0'(src \<mapsto> 0))" by (rule agf_upd [OF a(2) refl])
  from distLoop_agree [OF this, of ?pt src "nodes gr" "[]"] ds ds'
  have ad: "agf ?N ds ds'" by simp
  have ids: "fst ` set ?stack \<subseteq> ?N" by (auto simp: reached_mem)
  have to: "set (To gr v) \<subseteq> ?N" for v using wf_To_nodes [OF wf] by auto
  have s1: "agf ?N (sg0(src \<mapsto> 1)) (sg0'(src \<mapsto> 1))" by (rule agf_upd [OF a(1) refl])
  obtain sg pr where b: "fold (buildStep gr src ds) ?stack (sg0(src \<mapsto> 1), pr0) = (sg, pr)"
    by (cases "fold (buildStep gr src ds) ?stack (sg0(src \<mapsto> 1), pr0)")
  obtain sg' pr' where b': "fold (buildStep gr src ds') ?stack (sg0'(src \<mapsto> 1), pr0') = (sg', pr')"
    by (cases "fold (buildStep gr src ds') ?stack (sg0'(src \<mapsto> 1), pr0')")
  from fold_buildStep_agree [OF ad src to ids s1 a(4) cl] b b'
  have r: "agf ?N sg sg'" "agl ?N pr pr'" "closed_preds ?N pr" by simp_all
  have ba: "buildAfterInit gr src (sg0, ds0, dl0, pr0) = ((sg, ds, dl0, pr), ?stack)"
    by (simp add: buildAfterInit_def Let_def ds b)
  have ba': "buildAfterInit gr src (sg0', ds0', dl0', pr0') = ((sg', ds', dl0', pr'), ?stack)"
    by (simp add: buildAfterInit_def Let_def ds' b')
  have ys: "set (rev (map fst ?stack)) \<subseteq> ?N" using ids by auto
  from fold_accumStep_agree [OF r ys a(3), of src bc] show ?thesis
    unfolding ba ba' by (simp add: accumPhase_def)
qed

lemma reset_maps:
  "\<exists>st. (sigmaBuf (reset b ns), distBuf (reset b ns), deltaBuf (reset b ns), predBuf (reset b ns)) =
        initLoop ns st"
proof -
  let ?b1 = "if card (dom (sigmaBuf b)) > length ns * 2
             then b \<lparr> sigmaBuf := Map.empty, distBuf := Map.empty,
                      deltaBuf := Map.empty, predBuf := Map.empty \<rparr>
             else b"
  let ?st = "(sigmaBuf ?b1, distBuf ?b1, deltaBuf ?b1, predBuf ?b1)"
  obtain sg ds dl pr where r: "resetLoop ns ?st = (sg, ds, dl, pr)"
    by (cases "resetLoop ns ?st") auto
  then have "(sigmaBuf (reset b ns), distBuf (reset b ns), deltaBuf (reset b ns), predBuf (reset b ns)) =
      (sg, ds, dl, pr)"
    unfolding reset_def Let_def by simp
  with r show ?thesis unfolding resetLoop_initLoop by metis
qed

lemma fst_pooled:
  "fst (singleSourceBetweennessPooled buf gr source bc) =
     snd (accumPhase source
            (buildAfterInit gr source
               (sigmaBuf (reset buf (nodes gr)), distBuf (reset buf (nodes gr)),
                deltaBuf (reset buf (nodes gr)), predBuf (reset buf (nodes gr)))) bc)"
  by (simp add: singleSourceBetweennessPooled_def Let_def split: prod.splits)

text \<open>
  C10: on a well-formed graph and for a pivot that is one of its nodes, the pooled pass,
  whatever the bundle it checks out holds, returns the same accumulator map as the pass
  on fresh maps; so the per-node scores differ by 0, within 1e-10.
\<close>

theorem pooled_pass_transparent:
  assumes "wf_graph gr" and "source \<in> set (nodes gr)"
  shows "fst (singleSourceBetweennessPooled buf gr source bc) = singleSourceBetweenness gr source bc \<and>
         (\<forall>v. \<bar>getf (fst (singleSourceBetweennessPooled buf gr source bc)) v -
                getf (singleSourceBetweenness gr source bc) v\<bar> \<le> 1 / 10 ^ 10)"
proof -
  let ?b = "reset buf (nodes gr)"
  obtain st where st: "(sigmaBuf ?b, distBuf ?b, deltaBuf ?b, predBuf ?b) = initLoop (nodes gr) st"
    using reset_maps by blast
  obtain sg ds dl pr where f: "initLoop (nodes gr) emptyScratch = (sg, ds, dl, pr)"
    by (cases "initLoop (nodes gr) emptyScratch") auto
  from st have p: "initLoop (nodes gr) st = (sigmaBuf ?b, distBuf ?b, deltaBuf ?b, predBuf ?b)"
    by simp
  note ag = initLoop_agree [OF f p]
  have "singleSourceBetweenness gr source bc =
      snd (accumPhase source (buildAfterInit gr source (sg, ds, dl, pr)) bc)"
    by (simp add: singleSourceBetweenness_def buildPhase_split f)
  also have "\<dots> = snd (accumPhase source
      (buildAfterInit gr source (sigmaBuf ?b, distBuf ?b, deltaBuf ?b, predBuf ?b)) bc)"
    by (rule pass_agree [OF assms ag])
  also have "\<dots> = fst (singleSourceBetweennessPooled buf gr source bc)"
    by (simp add: fst_pooled)
  finally have "fst (singleSourceBetweennessPooled buf gr source bc) =
      singleSourceBetweenness gr source bc" by simp
  then show ?thesis by simp
qed

theorem pooled_pass_transparent_witness:
  "wf_graph pathGraph \<and> 0 \<in> set (nodes pathGraph) \<and>
   fst (singleSourceBetweennessPooled staleBuffers pathGraph 0 Map.empty) =
     singleSourceBetweenness pathGraph 0 Map.empty \<and>
   getf (fst (singleSourceBetweennessPooled staleBuffers pathGraph 0 Map.empty)) 1 = 1"
proof -
  have wf: "wf_graph pathGraph" by (simp add: wf_graph_def pathGraph_def)
  have s: "0 \<in> set (nodes pathGraph)" by (simp add: pathGraph_def)
  have "getf (singleSourceBetweenness pathGraph 0 Map.empty) 1 = 1" by code_simp
  with pooled_pass_transparent [OF wf s, of staleBuffers Map.empty] wf s show ?thesis
    by simp
qed

section \<open>The graphs NewAnalyzer builds are well formed\<close>

lemma SetEdge_wf:
  assumes "wf_graph gr" and "SetEdge gr u v = Inr gr'"
  shows "wf_graph gr'"
proof -
  let ?ns = "if u \<in> set (nodes gr) then nodes gr else nodes gr @ [u]"
  let ?ns' = "if v \<in> set ?ns then ?ns else ?ns @ [v]"
  let ?es = "if (u, v) \<in> set (edges gr) then edges gr else edges gr @ [(u, v)]"
  from assms(2) have uv: "u \<noteq> v" and n: "nodes gr' = ?ns'" and e: "edges gr' = ?es"
    by (auto simp: SetEdge_def Let_def split: if_splits)
  from assms(1) have dn: "distinct (nodes gr)" and de: "distinct (edges gr)"
    and en: "\<And>x. x \<in> set (edges gr) \<Longrightarrow> fst x \<in> set (nodes gr) \<and> snd x \<in> set (nodes gr)"
    by (auto simp: wf_graph_def list_all_iff)
  have 1: "distinct ?ns'" using dn by auto
  have 2: "distinct ?es" using de by auto
  have sub: "set (nodes gr) \<subseteq> set ?ns'" "u \<in> set ?ns'" "v \<in> set ?ns'" by auto
  have 3: "fst x \<in> set ?ns' \<and> snd x \<in> set ?ns'" if "x \<in> set ?es" for x
  proof (cases "x = (u, v)")
    case True
    with sub show ?thesis by simp
  next
    case False
    with that have "x \<in> set (edges gr)" by (auto split: if_splits)
    from en [OF this] sub(1) show ?thesis by blast
  qed
  show ?thesis unfolding wf_graph_def n e list_all_iff using 1 2 3 by blast
qed

lemma addDeps_wf:
  "wf_graph gr \<Longrightarrow> addDeps i2n u deps gr = Inr gr' \<Longrightarrow> wf_graph gr'"
proof (induction deps arbitrary: gr)
  case Nil
  then show ?case by simp
next
  case (Cons dep deps)
  show ?case
  proof (cases "i2n (DependsOnID dep)")
    case None
    with Cons show ?thesis by simp
  next
    case (Some v)
    with Cons.prems obtain g1 where s: "SetEdge gr u v = Inr g1" and r: "addDeps i2n u deps g1 = Inr gr'"
      by (auto split: sum.splits)
    from Cons.IH [OF SetEdge_wf [OF Cons.prems(1) s] r] show ?thesis .
  qed
qed

lemma addEdges_wf:
  "wf_graph gr \<Longrightarrow> addEdges i2n issues gr = Inr gr' \<Longrightarrow> wf_graph gr'"
proof (induction issues arbitrary: gr)
  case Nil
  then show ?case by simp
next
  case (Cons issue rest)
  show ?case
  proof (cases "i2n (ID issue)")
    case None
    with Cons show ?thesis by simp
  next
    case (Some u)
    with Cons.prems obtain g1 where s: "addDeps i2n u (Dependencies issue) gr = Inr g1"
      and r: "addEdges i2n rest g1 = Inr gr'"
      by (auto split: sum.splits)
    from Cons.IH [OF addDeps_wf [OF Cons.prems(1) s] r] show ?thesis .
  qed
qed

lemma NewAnalyzer_wf:
  assumes "NewAnalyzer issues = Inr a"
  shows "wf_graph (graph a)"
proof -
  define e where "e = \<lparr> graph = NewDirectedGraph, idToNode = Map.empty, nodeToID = Map.empty,
      issueMap = (Map.empty :: string \<rightharpoonup> Issue) \<rparr>"
  define a0 where "a0 = addNodes issues e"
  from assms obtain gr where ed: "addEdges (idToNode a0) issues (graph a0) = Inr gr"
    and a: "a = a0 \<lparr> graph := gr \<rparr>"
    by (auto simp: NewAnalyzer_def Let_def a0_def e_def split: sum.splits)
  have e0: "nodes (graph e) = [0..<0]" by (simp add: e_def NewDirectedGraph_def)
  have "nodes (graph a0) = [0..<length issues]"
    using addNodes_nodes [OF e0, of issues] by (simp add: a0_def)
  moreover have "edges (graph a0) = []"
    by (simp add: a0_def e_def addNodes_edges NewDirectedGraph_def)
  ultimately have "wf_graph (graph a0)" by (simp add: wf_graph_def)
  from addEdges_wf [OF this ed] a show ?thesis by simp
qed

end
